theory Spec2Isabelle
  imports Main "HOL-Library.Extended_Nat"
begin

section \<open>The event emitter: data model\<close>

text \<open>
  The repository holds two emitter classes, \<^verbatim>\<open>EventEmitter\<close> (synchronous) and
  \<^verbatim>\<open>AsyncEventEmitter\<close>. Both have the same private fields, the same
  \<^verbatim>\<open>#isUniqueAndDone\<close>, \<^verbatim>\<open>#clearIfMaxUnsubscribeCountIsReached\<close>, \<^verbatim>\<open>#clear\<close> and
  \<^verbatim>\<open>listen\<close>; they differ in \<^verbatim>\<open>#dispatch\<close> only. The embedding keeps one record for
  the fields and one definition for each shared method.

  A listener is a JavaScript closure. Its identity matters (\<^verbatim>\<open>listener !== noop\<close>,
  \<^verbatim>\<open>indexOf(listener)\<close>), and so does what it does to the emitter when it is called.
  A listener is therefore a name \<open>Fn l\<close>; an environment gives the body of each name
  as a list of commands: calls of \<^verbatim>\<open>listen\<close>, of an undo function, of the dispatch
  capability (with or without a surrounding \<^verbatim>\<open>try/catch\<close>), and \<^verbatim>\<open>throw\<close>.
\<close>

datatype error =
    DispatchLoopDetected    \<comment> \<open>\<^verbatim>\<open>new Error('Dispatch loop detected.')\<close>\<close>
  | EventAlreadyEmitted     \<comment> \<open>\<^verbatim>\<open>new Error('Event already emitted.')\<close>\<close>
  | NotAFunction            \<comment> \<open>the \<^verbatim>\<open>TypeError\<close> of calling an absent array element\<close>
  | Reason nat              \<comment> \<open>a value a listener throws, or rejects its result with\<close>
  | AggregateError "error list"

datatype 'a result = Returned 'a | Thrown error | OutOfFuel

datatype slot =
    Noop      \<comment> \<open>the shared \<^verbatim>\<open>noop\<close> function: the tombstone\<close>
  | Fn nat    \<comment> \<open>a listener function, by name\<close>
  | Hole      \<comment> \<open>an array index that holds no element\<close>

datatype 'v cmd =
    Listen nat        \<comment> \<open>\<^verbatim>\<open>emitter.listen(l)\<close>, the returned function is kept\<close>
  | Unlisten nat      \<comment> \<open>call the undo function returned by the \<open>h\<close>-th \<^verbatim>\<open>listen\<close>\<close>
  | Dispatch 'v       \<comment> \<open>\<^verbatim>\<open>dispatch(w)\<close>\<close>
  | TryDispatch 'v    \<comment> \<open>\<^verbatim>\<open>try { dispatch(w) } catch (e) { record e }\<close>\<close>
  | Throw nat         \<comment> \<open>\<^verbatim>\<open>throw\<close> of a value of the listener's own\<close>

datatype 'v event =
    Invoked nat 'v    \<comment> \<open>listener \<open>l\<close> was called with the value\<close>
  | Caught error      \<comment> \<open>a listener caught the failure of its own \<^verbatim>\<open>dispatch\<close> call\<close>
  | Warned nat nat    \<comment> \<open>\<^verbatim>\<open>console.warn\<close> of \<^verbatim>\<open>checkMaxListeners\<close>\<close>

datatype after_unique = Default | Error

text \<open>
  The function returned by \<^verbatim>\<open>listen\<close> is either \<^verbatim>\<open>noop\<close> or a closure over the
  listener and the two mutable locals \<^verbatim>\<open>index\<close> and \<^verbatim>\<open>clearCount\<close>.
\<close>

datatype undo_fn = UndoNoop | UndoClosure nat int nat

record 'v emitter =
  maxListeners :: nat
  unique :: bool
  listenAfterUniqueDispatched :: after_unique
  listeners :: "slot list"
  unsubscribeCount :: nat
  clearCount :: nat
  dispatchCount :: nat
  dispatching :: bool
  undos :: "undo_fn list"       \<comment> \<open>the undo functions handed out so far, with their locals\<close>
  trace :: "'v event list"      \<comment> \<open>what the outside world has observed\<close>

type_synonym 'v env = "nat \<Rightarrow> 'v \<Rightarrow> 'v cmd list"

type_synonym 'v dispatch_fn = "'v \<Rightarrow> 'v emitter \<Rightarrow> unit result \<times> 'v emitter"

section \<open>The shared methods\<close>

text \<open>The constructor, before \<^verbatim>\<open>init\<close> is handed the dispatch capability.\<close>

definition new_emitter :: "nat \<Rightarrow> bool \<Rightarrow> after_unique \<Rightarrow> 'v emitter" where
  "new_emitter m u a =
     \<lparr>maxListeners = m, unique = u, listenAfterUniqueDispatched = a, listeners = [],
      unsubscribeCount = 0, clearCount = 0, dispatchCount = 0, dispatching = False,
      undos = [], trace = []\<rparr>"

definition maxUnsubscribeCount :: nat where
  "maxUnsubscribeCount = 255"

definition isUniqueAndDone :: "'v emitter \<Rightarrow> bool" where
  "isUniqueAndDone s = (unique s \<and> dispatchCount s \<noteq> 0)"

text \<open>
  \<^verbatim>\<open>Array.prototype.filter\<close> skips absent elements, so the result of \<^verbatim>\<open>#clear\<close> holds
  neither tombstones nor holes.
\<close>

definition clear :: "'v emitter \<Rightarrow> 'v emitter" where
  "clear s =
     s\<lparr>unsubscribeCount := 0, clearCount := clearCount s + 1,
       listeners := filter (\<lambda>listener. listener \<noteq> Hole \<and> listener \<noteq> Noop) (listeners s)\<rparr>"

definition clearIfMaxUnsubscribeCountIsReached :: "'v emitter \<Rightarrow> 'v emitter" where
  "clearIfMaxUnsubscribeCountIsReached s =
     (if unsubscribeCount s \<ge> maxUnsubscribeCount then clear s else s)"

definition checkMaxListeners :: "nat \<Rightarrow> nat \<Rightarrow> 'v emitter \<Rightarrow> 'v emitter" where
  "checkMaxListeners listenersCount maxL s =
     (if listenersCount > maxL then s\<lparr>trace := trace s @ [Warned listenersCount maxL]\<rparr> else s)"

text \<open>\<^verbatim>\<open>indexOf\<close>: the first index holding the function, or \<open>-1\<close>.\<close>

fun indexOf :: "slot list \<Rightarrow> slot \<Rightarrow> int" where
  "indexOf [] x = - 1"
| "indexOf (y # ys) x =
     (if y = x then 0 else (let i = indexOf ys x in if i = - 1 then - 1 else i + 1))"

text \<open>
  \<^verbatim>\<open>array[index] = x\<close>. A negative key is an ordinary property and changes no element;
  an index past the end extends the array, leaving holes.
\<close>

definition assign :: "slot list \<Rightarrow> int \<Rightarrow> slot \<Rightarrow> slot list" where
  "assign xs i x =
     (if i < 0 then xs
      else if nat i < length xs then xs[nat i := x]
      else xs @ replicate (nat i - length xs) Hole @ [x])"

text \<open>
  \<^verbatim>\<open>listen\<close> returns the position, in \<open>undos\<close>, of the function it hands out.
\<close>

definition listen :: "nat \<Rightarrow> 'v emitter \<Rightarrow> nat result \<times> 'v emitter" where
  "listen l s =
     (if isUniqueAndDone s then
        (if listenAfterUniqueDispatched s = Error then (Thrown EventAlreadyEmitted, s)
         else (Returned (length (undos s)), s\<lparr>undos := undos s @ [UndoNoop]\<rparr>))
      else
        (let index = int (length (listeners s));
             cc = clearCount s;
             s1 = s\<lparr>listeners := listeners s @ [Fn l]\<rparr>;
             s2 = checkMaxListeners (length (listeners s1)) (maxListeners s1) s1
         in (Returned (length (undos s2)), s2\<lparr>undos := undos s2 @ [UndoClosure l index cc]\<rparr>)))"

text \<open>Calling the \<open>h\<close>-th undo function.\<close>

definition undo :: "nat \<Rightarrow> 'v emitter \<Rightarrow> 'v emitter" where
  "undo h s =
     (if h < length (undos s) then
        (case undos s ! h of
           UndoNoop \<Rightarrow> s
         | UndoClosure l index cc \<Rightarrow>
             if index \<noteq> - 1 then
               (let index' = (if cc \<noteq> clearCount s then indexOf (listeners s) (Fn l) else index);
                    s1 = s\<lparr>listeners := assign (listeners s) index' Noop,
                           undos := (undos s)[h := UndoClosure l (- 1) (clearCount s)]\<rparr>
                in clearIfMaxUnsubscribeCountIsReached s1)
             else s)
      else s)"

section \<open>Synchronous dispatch\<close>

text \<open>
  A listener body runs its commands in order; \<open>d\<close> is the dispatch capability the
  closure holds. An exception leaves the body at once.
\<close>

fun exec :: "'v dispatch_fn \<Rightarrow> 'v cmd list \<Rightarrow> 'v emitter \<Rightarrow> unit result \<times> 'v emitter" where
  "exec d [] s = (Returned (), s)"
| "exec d (Listen l # cs) s =
     (case listen l s of
        (Returned h, s') \<Rightarrow> exec d cs s'
      | (Thrown e, s') \<Rightarrow> (Thrown e, s')
      | (OutOfFuel, s') \<Rightarrow> (OutOfFuel, s'))"
| "exec d (Unlisten h # cs) s = exec d cs (undo h s)"
| "exec d (Dispatch w # cs) s =
     (case d w s of
        (Returned u, s') \<Rightarrow> exec d cs s'
      | (Thrown e, s') \<Rightarrow> (Thrown e, s')
      | (OutOfFuel, s') \<Rightarrow> (OutOfFuel, s'))"
| "exec d (TryDispatch w # cs) s =
     (case d w s of
        (Returned u, s') \<Rightarrow> exec d cs s'
      | (Thrown e, s') \<Rightarrow> exec d cs (s'\<lparr>trace := trace s' @ [Caught e]\<rparr>)
      | (OutOfFuel, s') \<Rightarrow> (OutOfFuel, s'))"
| "exec d (Throw e # cs) s = (Thrown (Reason e), s)"

text \<open>\<^verbatim>\<open>this.#listeners[i](value)\<close>.\<close>

definition invoke :: "'v dispatch_fn \<Rightarrow> 'v env \<Rightarrow> slot \<Rightarrow> 'v \<Rightarrow> 'v emitter \<Rightarrow> unit result \<times> 'v emitter" where
  "invoke d env f v s =
     (case f of
        Noop \<Rightarrow> (Returned (), s)
      | Fn l \<Rightarrow> exec d (env l v) (s\<lparr>trace := trace s @ [Invoked l v]\<rparr>)
      | Hole \<Rightarrow> (Thrown NotAFunction, s))"

text \<open>
  The \<^verbatim>\<open>for\<close> loop of \<^verbatim>\<open>#dispatch\<close>. It reads \<^verbatim>\<open>this.#listeners.length\<close> before each
  iteration, and a listener may append to the array, so the loop need not end: the first
  argument bounds the number of iterations.
\<close>

fun loop :: "'v dispatch_fn \<Rightarrow> 'v env \<Rightarrow> nat \<Rightarrow> 'v \<Rightarrow> nat \<Rightarrow> 'v emitter \<Rightarrow> unit result \<times> 'v emitter" where
  "loop d env 0 v i s = (if i < length (listeners s) then (OutOfFuel, s) else (Returned (), s))"
| "loop d env (Suc n) v i s =
     (if i < length (listeners s) then
        (case invoke d env (listeners s ! i) v s of
           (Returned u, s') \<Rightarrow> loop d env n v (i + 1) s'
         | (Thrown e, s') \<Rightarrow> (Thrown e, s')
         | (OutOfFuel, s') \<Rightarrow> (OutOfFuel, s'))
      else (Returned (), s))"

text \<open>What \<^verbatim>\<open>#dispatch\<close> does after the loop.\<close>

definition finish :: "'v emitter \<Rightarrow> 'v emitter" where
  "finish s =
     (let s1 = (if unique s then s\<lparr>clearCount := 1, listeners := []\<rparr>
                else clearIfMaxUnsubscribeCountIsReached s)
      in s1\<lparr>dispatching := False\<rparr>)"

text \<open>
  \<^verbatim>\<open>#dispatch\<close>. The capability the listeners hold is \<^verbatim>\<open>#dispatch\<close> itself; the fuel
  bounds the nesting of calls and the iterations of each loop.
\<close>

primrec dispatch :: "'v env \<Rightarrow> nat \<Rightarrow> 'v \<Rightarrow> 'v emitter \<Rightarrow> unit result \<times> 'v emitter" where
  "dispatch env 0 v s =
     (if dispatching s then (Thrown DispatchLoopDetected, s)
      else if isUniqueAndDone s then (Thrown EventAlreadyEmitted, s)
      else (OutOfFuel, s))"
| "dispatch env (Suc n) v s =
     (if dispatching s then (Thrown DispatchLoopDetected, s)
      else if isUniqueAndDone s then (Thrown EventAlreadyEmitted, s)
      else
        (case loop (dispatch env n) env n v 0
                (s\<lparr>dispatching := True, dispatchCount := dispatchCount s + 1\<rparr>) of
           (Returned u, s') \<Rightarrow> (Returned (), finish s')
         | (Thrown e, s') \<Rightarrow> (Thrown e, s')
         | (OutOfFuel, s') \<Rightarrow> (OutOfFuel, s')))"

section \<open>Client scenarios\<close>

text \<open>Registering the listeners of a list one after the other, from outside a dispatch.\<close>

definition listen_each :: "nat list \<Rightarrow> 'v emitter \<Rightarrow> 'v emitter" where
  "listen_each ls s = fold (\<lambda>l s. snd (listen l s)) ls s"

text \<open>A fresh emitter of numbers with the default \<^verbatim>\<open>maxListeners\<close>, and listeners on it.\<close>

definition registered :: "bool \<Rightarrow> after_unique \<Rightarrow> nat list \<Rightarrow> nat emitter" where
  "registered u a ls = listen_each ls (new_emitter 10 u a)"

text \<open>
  Calls made from outside any listener, one after the other. \<open>play\<close> counts the
  \<^verbatim>\<open>dispatch\<close> calls that returned normally; a call that never returns ends the run.
\<close>

datatype 'v call = CallListen nat | CallUndo nat | CallDispatch nat 'v

fun play :: "'v env \<Rightarrow> 'v call list \<Rightarrow> nat \<times> 'v emitter \<Rightarrow> (nat \<times> 'v emitter) option" where
  "play env [] ks = Some ks"
| "play env (CallListen l # cs) (k, s) = play env cs (k, snd (listen l s))"
| "play env (CallUndo h # cs) (k, s) = play env cs (k, undo h s)"
| "play env (CallDispatch n v # cs) (k, s) =
     (case dispatch env n v s of
        (Returned u, s') \<Rightarrow> play env cs (Suc k, s')
      | (Thrown e, s') \<Rightarrow> play env cs (k, s')
      | (OutOfFuel, s') \<Rightarrow> None)"

text \<open>
  A dispatch capability that refuses every call made while the emitter is dispatching,
  as \<^verbatim>\<open>#dispatch\<close> does in its first statement.
\<close>

definition guarded :: "'v dispatch_fn \<Rightarrow> bool" where
  "guarded d = (\<forall>w s. dispatching s \<longrightarrow> d w s = (Thrown DispatchLoopDetected, s))"


text \<open>
  The listeners of the examples: listener 0 registers listener 1, listener 2 throws,
  listener 3 calls \<^verbatim>\<open>dispatch\<close> twice and catches each failure, listener 4 calls
  \<^verbatim>\<open>dispatch\<close> and lets the failure escape; every other listener does nothing.
\<close>

definition demo :: "nat env" where
  "demo l v =
     (if l = 0 then [Listen 1]
      else if l = 2 then [Throw 7]
      else if l = 3 then [TryDispatch 6, TryDispatch 7]
      else if l = 4 then [Dispatch 6]
      else [])"


section \<open>Predicates of the proofs\<close>







section \<open>Asynchronous dispatch\<close>


















section \<open>The asynchronous generator of the synchronous emitter\<close>

text \<open>
  \<^verbatim>\<open>toAsyncGenerator\<close> keeps a queue \<^verbatim>\<open>values\<close> of values with their expiration dates
  and at most one \<^verbatim>\<open>pendingRead\<close>, the promise a suspended pull awaits. The options
  are numbers or \<^verbatim>\<open>Infinity\<close>; \<^verbatim>\<open>Math.max(0, x)\<close> makes them extended naturals
  (fractions are not modelled). Time is the reading of \<^verbatim>\<open>Date.now()\<close>, in milliseconds.
\<close>

datatype number = Num int | Infinity

definition at_least_zero :: "number \<Rightarrow> enat" where
  "at_least_zero x = (case x of Num k \<Rightarrow> enat (nat k) | Infinity \<Rightarrow> \<infinity>)"

text \<open>
  The queue is \<open>vals\<close> here. \<open>created\<close> counts the \<^verbatim>\<open>Promise.withResolvers()\<close> calls and
  names the promises; \<open>resolved\<close> lists the \<^verbatim>\<open>pendingRead.resolve()\<close> calls made.
\<close>

record 'v bridge =
  bufferSize :: enat
  windowTime :: enat
  vals :: "('v \<times> enat) list"
  pendingRead :: "nat option"
  created :: nat
  resolved :: "nat list"

text \<open>
  The generator once its body has started: the options are normalised, the queue is
  empty, nothing is awaited, and the listener below is registered on the emitter.
\<close>

definition toAsyncGenerator :: "number \<Rightarrow> number \<Rightarrow> 'v bridge" where
  "toAsyncGenerator bs wt =
     \<lparr>bufferSize = at_least_zero bs, windowTime = at_least_zero wt, vals = [],
      pendingRead = None, created = 0, resolved = []\<rparr>"

text \<open>The listener, called with each value the emitter dispatches.\<close>

definition on_value :: "nat \<Rightarrow> 'v \<Rightarrow> 'v bridge \<Rightarrow> 'v bridge" where
  "on_value now v b =
     (let b1 =
        (if bufferSize b > 0 \<and> windowTime b > 0 then
           (let b2 = b\<lparr>vals := vals b @ [(v, enat now + windowTime b)]\<rparr>
            in if enat (length (vals b2)) > bufferSize b2 then b2\<lparr>vals := tl (vals b2)\<rparr> else b2)
         else
           (if pendingRead b \<noteq> None then b\<lparr>vals := [(v, \<infinity>)]\<rparr> else b))
      in case pendingRead b1 of
           Some p \<Rightarrow> b1\<lparr>resolved := resolved b1 @ [p], pendingRead := None\<rparr>
         | None \<Rightarrow> b1)"

text \<open>The inner \<^verbatim>\<open>while\<close> loop: drop the values at the head that have expired.\<close>

fun purge :: "nat \<Rightarrow> ('v \<times> enat) list \<Rightarrow> ('v \<times> enat) list" where
  "purge now [] = []"
| "purge now (x # xs) = (if snd x < enat now then purge now xs else x # xs)"

text \<open>
  One turn of the outer \<^verbatim>\<open>while (true)\<close>: it throws when the signal is aborted,
  yields the oldest value that has not expired, or creates \<^verbatim>\<open>pendingRead\<close> and
  suspends on it. When the promise is resolved the loop takes another turn.
\<close>

datatype 'v pulled = Yielded 'v | Suspended nat | Aborted error

definition pull :: "error option \<Rightarrow> nat \<Rightarrow> 'v bridge \<Rightarrow> 'v pulled \<times> 'v bridge" where
  "pull aborted now b =
     (case aborted of
        Some reason \<Rightarrow> (Aborted reason, b)
      | None \<Rightarrow>
          (case purge now (vals b) of
             [] \<Rightarrow> (Suspended (created b),
                    b\<lparr>vals := [], pendingRead := Some (created b), created := created b + 1\<rparr>)
           | x # xs \<Rightarrow> (Yielded (fst x), b\<lparr>vals := xs\<rparr>)))"



definition latest :: "string bridge" where
  "latest = toAsyncGenerator (Num 0) (Num 1000)"

section \<open>Registering and unregistering\<close>

lemma listen_not_unique:
  "\<not> unique s \<Longrightarrow> fst (listen l s) = Returned (length (undos s))
     \<and> listeners (snd (listen l s)) = listeners s @ [Fn l]
     \<and> undos (snd (listen l s)) = undos s @ [UndoClosure l (int (length (listeners s))) (clearCount s)]
     \<and> unsubscribeCount (snd (listen l s)) = unsubscribeCount s
     \<and> clearCount (snd (listen l s)) = clearCount s
     \<and> unique (snd (listen l s)) = unique s"
  by (simp add: listen_def isUniqueAndDone_def checkMaxListeners_def Let_def)

lemma listen_each_fields:
  "\<not> unique s \<Longrightarrow>
     listeners (listen_each ls s) = listeners s @ map Fn ls
   \<and> undos (listen_each ls s) =
       undos s @ map (\<lambda>(j, l). UndoClosure l (int j) (clearCount s))
                   (List.enumerate (length (listeners s)) ls)
   \<and> unsubscribeCount (listen_each ls s) = unsubscribeCount s
   \<and> clearCount (listen_each ls s) = clearCount s
   \<and> unique (listen_each ls s) = unique s"
proof (induction ls arbitrary: s rule: rev_induct)
  case Nil
  then show ?case by (simp add: listen_each_def)
next
  case (snoc l ls)
  let ?t = "listen_each ls s"
  have t: "\<not> unique ?t" using snoc by simp
  have step: "listen_each (ls @ [l]) s = snd (listen l ?t)"
    by (simp add: listen_each_def)
  show ?case
    using snoc.IH[OF snoc.prems] listen_not_unique[OF t, of l]
    by (simp add: step enumerate_append_eq)
qed

text \<open>
  The undo function of a live registration whose cached index is current: the slot
  becomes the tombstone, and no other field of the emitter changes.
\<close>

lemma undo_live:
  assumes "h < length (undos s)" "undos s ! h = UndoClosure l (int i) (clearCount s)"
    "i < length (listeners s)" "unsubscribeCount s < maxUnsubscribeCount"
  shows "undo h s = s\<lparr>listeners := (listeners s)[i := Noop],
                         undos := (undos s)[h := UndoClosure l (- 1) (clearCount s)]\<rparr>"
  using assms by (simp add: undo_def assign_def clearIfMaxUnsubscribeCountIsReached_def Let_def)

lemma undo_sweep:
  assumes "length (listeners s) = n" "length (undos s) = n"
    "\<forall>h<n. \<exists>l. undos s ! h = UndoClosure l (int h) (clearCount s)"
    "unsubscribeCount s < maxUnsubscribeCount" "k \<le> n"
  shows "listeners (fold undo [0..<k] s) = replicate k Noop @ drop k (listeners s)
       \<and> length (undos (fold undo [0..<k] s)) = n
       \<and> (\<forall>h<n. k \<le> h \<longrightarrow> undos (fold undo [0..<k] s) ! h = undos s ! h)
       \<and> unsubscribeCount (fold undo [0..<k] s) = unsubscribeCount s
       \<and> clearCount (fold undo [0..<k] s) = clearCount s"
  using assms(5)
proof (induction k)
  case 0
  then show ?case using assms by simp
next
  case (Suc k)
  let ?t = "fold undo [0..<k] s"
  have IH: "listeners ?t = replicate k Noop @ drop k (listeners s)"
    "length (undos ?t) = n" "\<forall>h<n. k \<le> h \<longrightarrow> undos ?t ! h = undos s ! h"
    "unsubscribeCount ?t = unsubscribeCount s" "clearCount ?t = clearCount s"
    using Suc by simp_all
  have kn: "k < n" using Suc.prems by simp
  obtain l where l: "undos s ! k = UndoClosure l (int k) (clearCount s)"
    using assms(3) kn by blast
  have len: "length (listeners ?t) = n" using IH(1) assms(1) kn by simp
  have u: "undo k ?t = ?t\<lparr>listeners := (listeners ?t)[k := Noop],
                         undos := (undos ?t)[k := UndoClosure l (- 1) (clearCount ?t)]\<rparr>"
    by (rule undo_live) (use IH kn l len assms(4) in simp_all)
  have step: "fold undo [0..<Suc k] s = undo k ?t" by simp
  have ls: "(replicate k Noop @ drop k (listeners s))[k := Noop]
            = replicate (Suc k) Noop @ drop (Suc k) (listeners s)"
    using kn assms(1)
    by (simp add: list_update_append replicate_append_same upd_conv_take_nth_drop Cons_nth_drop_Suc)
  show ?case
    unfolding step u using IH kn ls by simp
qed

text \<open>
  On a fresh emitter that is not unique: register \<open>n\<close> listeners, then call every undo
  function. All \<open>n\<close> slots are tombstones, still in the array, and the counter of
  unsubscribed listeners has not moved.
\<close>

lemma many_unregisters:
  fixes s0 :: "'v emitter"
  assumes "s0 = new_emitter m False a"
  shows "let s = fold undo [0..<n] (listen_each [0..<n] s0)
    in listeners s = replicate n Noop \<and> unsubscribeCount s = 0 \<and> clearCount s = 0"
proof -
  let ?s1 = "listen_each [0..<n] s0"
  have nu: "\<not> unique s0" by (simp add: assms new_emitter_def)
  have f: "listeners ?s1 = map Fn [0..<n]"
     "undos ?s1 = map (\<lambda>(j, l). UndoClosure l (int j) 0) (List.enumerate 0 [0..<n])"
     "unsubscribeCount ?s1 = 0" "clearCount ?s1 = 0"
    using listen_each_fields[OF nu, of "[0..<n]"] by (simp_all add: assms new_emitter_def)
  have sw: "listeners (fold undo [0..<n] ?s1) = replicate n Noop @ drop n (listeners ?s1)
       \<and> length (undos (fold undo [0..<n] ?s1)) = n
       \<and> (\<forall>h<n. n \<le> h \<longrightarrow> undos (fold undo [0..<n] ?s1) ! h = undos ?s1 ! h)
       \<and> unsubscribeCount (fold undo [0..<n] ?s1) = unsubscribeCount ?s1
       \<and> clearCount (fold undo [0..<n] ?s1) = clearCount ?s1"
    by (rule undo_sweep) (simp_all add: f nth_enumerate_eq maxUnsubscribeCount_def)
  show ?thesis using sw f by (simp add: Let_def)
qed

text \<open>
  Claim C1. Invoking an unregister handle tombstones the slot and counts toward
  \<^verbatim>\<open>unsubscribeCount\<close>; at 255 the compaction runs and removes the tombstones.
  The code writes the tombstone but never increments \<^verbatim>\<open>#unsubscribeCount\<close>: after 255
  listeners have been registered and all 255 unregistered, the counter is 0, no
  compaction has run (\<^verbatim>\<open>#clearCount\<close> is 0) and the array still holds 255 tombstones.
\<close>

theorem unregister_is_never_counted:
  "let s = fold undo [0..<255] (listen_each [0..<255] (new_emitter 10 False Default))
   in listeners s = replicate 255 Noop \<and> unsubscribeCount s = 0 \<and> clearCount s = 0"
  by (rule many_unregisters) simp

section \<open>What a dispatch call preserves\<close>

lemma listen_keeps:
  "listen l s = (r, s') \<Longrightarrow>
     dispatching s' = dispatching s \<and> unique s' = unique s \<and> dispatchCount s' = dispatchCount s
   \<and> unsubscribeCount s' = unsubscribeCount s \<and> clearCount s' = clearCount s
   \<and> r \<noteq> OutOfFuel"
  by (auto simp: listen_def checkMaxListeners_def Let_def split: if_splits)

lemma clearIf_keeps:
  "dispatching (clearIfMaxUnsubscribeCountIsReached s) = dispatching s
   \<and> unique (clearIfMaxUnsubscribeCountIsReached s) = unique s
   \<and> dispatchCount (clearIfMaxUnsubscribeCountIsReached s) = dispatchCount s
   \<and> trace (clearIfMaxUnsubscribeCountIsReached s) = trace s
   \<and> undos (clearIfMaxUnsubscribeCountIsReached s) = undos s"
  by (simp add: clearIfMaxUnsubscribeCountIsReached_def clear_def)

lemma undo_keeps:
  "dispatching (undo h s) = dispatching s \<and> unique (undo h s) = unique s
   \<and> dispatchCount (undo h s) = dispatchCount s \<and> trace (undo h s) = trace s"
  by (simp add: undo_def clearIf_keeps Let_def split: undo_fn.splits)

lemma dispatch_reentrant:
  "dispatching s \<Longrightarrow> dispatch env n v s = (Thrown DispatchLoopDetected, s)"
  by (cases n) simp_all

lemma guarded_dispatch: "guarded (dispatch env n)"
  by (simp add: guarded_def dispatch_reentrant)

lemma exec_keeps:
  assumes g: "guarded d"
  shows "dispatching s \<Longrightarrow> exec d cs s = (r, s') \<Longrightarrow>
     dispatching s' \<and> unique s' = unique s \<and> dispatchCount s' = dispatchCount s \<and> r \<noteq> OutOfFuel"
proof (induction cs arbitrary: s)
  case Nil
  then show ?case by auto
next
  case (Cons c cs)
  have d: "\<And>w. d w s = (Thrown DispatchLoopDetected, s)"
    using g Cons.prems(1) by (simp add: guarded_def)
  show ?case
  proof (cases c)
    case (Listen l)
    obtain r1 s1 where l: "listen l s = (r1, s1)" by (cases "listen l s")
    note k = listen_keeps[OF l]
    show ?thesis
    proof (cases r1)
      case (Returned h)
      then have "exec d cs s1 = (r, s')" using Cons.prems(2) Listen l by simp
      then show ?thesis using Cons.IH[of s1] k Cons.prems(1) by simp
    next
      case (Thrown e)
      then show ?thesis using Cons.prems Listen l k by auto
    next
      case OutOfFuel
      then show ?thesis using k by simp
    qed
  next
    case (Unlisten h)
    then have "exec d cs (undo h s) = (r, s')" using Cons.prems(2) by simp
    then show ?thesis using Cons.IH[of "undo h s"] undo_keeps[of h s] Cons.prems(1) by simp
  next
    case (Dispatch w)
    then show ?thesis using Cons.prems d by auto
  next
    case (TryDispatch w)
    then have "exec d cs (s\<lparr>trace := trace s @ [Caught DispatchLoopDetected]\<rparr>) = (r, s')"
      using Cons.prems(2) d by simp
    then show ?thesis
      using Cons.IH[of "s\<lparr>trace := trace s @ [Caught DispatchLoopDetected]\<rparr>"] Cons.prems(1) by simp
  next
    case (Throw e)
    then show ?thesis using Cons.prems by auto
  qed
qed

lemma invoke_keeps:
  assumes "guarded d" "dispatching s" "invoke d env f v s = (r, s')"
  shows "dispatching s' \<and> unique s' = unique s \<and> dispatchCount s' = dispatchCount s \<and> r \<noteq> OutOfFuel"
proof (cases f)
  case Noop
  then show ?thesis using assms by (auto simp: invoke_def)
next
  case (Fn l)
  then have "exec d (env l v) (s\<lparr>trace := trace s @ [Invoked l v]\<rparr>) = (r, s')"
    using assms(3) by (simp add: invoke_def)
  from exec_keeps[OF assms(1) _ this] assms(2) show ?thesis by simp
next
  case Hole
  then show ?thesis using assms by (auto simp: invoke_def)
qed

lemma loop_keeps:
  assumes g: "guarded d"
  shows "dispatching s \<Longrightarrow> loop d env n v i s = (r, s') \<Longrightarrow>
     dispatching s' \<and> unique s' = unique s \<and> dispatchCount s' = dispatchCount s"
proof (induction n arbitrary: i s)
  case 0
  then show ?case by (auto split: if_splits)
next
  case (Suc n)
  show ?case
  proof (cases "i < length (listeners s)")
    case False
    then show ?thesis using Suc.prems by auto
  next
    case True
    obtain r1 s1 where iv: "invoke d env (listeners s ! i) v s = (r1, s1)"
      by (cases "invoke d env (listeners s ! i) v s")
    note k = invoke_keeps[OF g Suc.prems(1) iv]
    show ?thesis
    proof (cases r1)
      case (Returned u)
      then have "loop d env n v (i + 1) s1 = (r, s')" using Suc.prems(2) True iv by simp
      then show ?thesis using Suc.IH[of s1 "i + 1"] k by simp
    next
      case (Thrown e)
      then show ?thesis using Suc.prems(2) True iv k by auto
    next
      case OutOfFuel
      then show ?thesis using k by simp
    qed
  qed
qed

lemma finish_fields:
  "dispatching (finish s) = False \<and> unique (finish s) = unique s
   \<and> dispatchCount (finish s) = dispatchCount s \<and> trace (finish s) = trace s"
  by (simp add: finish_def clearIf_keeps)

text \<open>The three ways a call of dispatch that does return can end.\<close>

lemma dispatch_cases:
  assumes "dispatch env n v s = (r, s')" "r \<noteq> OutOfFuel"
  shows "(dispatching s \<and> r = Thrown DispatchLoopDetected \<and> s' = s)
       \<or> (\<not> dispatching s \<and> isUniqueAndDone s \<and> r = Thrown EventAlreadyEmitted \<and> s' = s)
       \<or> (\<not> dispatching s \<and> \<not> isUniqueAndDone s \<and> unique s' = unique s
            \<and> dispatchCount s' = dispatchCount s + 1
            \<and> (case r of Returned u \<Rightarrow> \<not> dispatching s' | _ \<Rightarrow> dispatching s'))"
proof (cases n)
  case 0
  then show ?thesis using assms by (auto split: if_splits)
next
  case (Suc m)
  show ?thesis
  proof (cases "dispatching s \<or> isUniqueAndDone s")
    case True
    then show ?thesis using assms Suc by (auto split: if_splits)
  next
    case False
    let ?s0 = "s\<lparr>dispatching := True, dispatchCount := dispatchCount s + 1\<rparr>"
    obtain r1 s1 where lp: "loop (dispatch env m) env m v 0 ?s0 = (r1, s1)"
      by (cases "loop (dispatch env m) env m v 0 ?s0")
    have k: "dispatching s1 \<and> unique s1 = unique ?s0 \<and> dispatchCount s1 = dispatchCount ?s0"
      by (rule loop_keeps[OF guarded_dispatch _ lp]) simp
    show ?thesis
      using assms Suc False lp k by (cases r1) (auto simp: finish_fields)
  qed
qed


subsection \<open>Relations that every step of a listener keeps\<close>






subsection \<open>The counter of unsubscribed listeners\<close>









section \<open>The reentrancy flag\<close>




text \<open>
  The exit the amended claim leaves out. When a listener throws, the exception leaves
  \<^verbatim>\<open>#dispatch\<close> before the statement that clears the flag: the flag stays set, and
  the next call, from outside any listener, is rejected as a dispatch loop.
\<close>

lemma listener_throw_leaves_flag_set:
  "fst (dispatch demo 2 5 (registered False Default [2])) = Thrown (Reason 7)
   \<and> dispatching (snd (dispatch demo 2 5 (registered False Default [2])))
   \<and> fst (dispatch demo 2 6 (snd (dispatch demo 2 5 (registered False Default [2]))))
       = Thrown DispatchLoopDetected"
  by code_simp

section \<open>Unique emitters\<close>

lemma play_unique_inv:
  assumes "unique s0" "(0 < k0) = (\<not> dispatching s0 \<and> dispatchCount s0 \<noteq> 0)"
    "play env cs (k0, s0) = Some (k, s)"
  shows "unique s \<and> (0 < k) = (\<not> dispatching s \<and> dispatchCount s \<noteq> 0)"
  using assms
proof (induction cs arbitrary: k0 s0)
  case Nil
  then show ?case by simp
next
  case (Cons c cs)
  show ?case
  proof (cases c)
    case (CallListen l)
    obtain r1 s1 where l: "listen l s0 = (r1, s1)" by (cases "listen l s0")
    have "play env cs (k0, s1) = Some (k, s)" using Cons.prems(3) CallListen l by simp
    then show ?thesis using Cons.IH[of s1 k0] listen_keeps[OF l] Cons.prems(1,2) by simp
  next
    case (CallUndo h)
    then have "play env cs (k0, undo h s0) = Some (k, s)" using Cons.prems(3) by simp
    then show ?thesis using Cons.IH[of "undo h s0" k0] undo_keeps[of h s0] Cons.prems(1,2) by simp
  next
    case (CallDispatch n v)
    obtain r1 s1 where d: "dispatch env n v s0 = (r1, s1)" by (cases "dispatch env n v s0")
    have ne: "r1 \<noteq> OutOfFuel" using Cons.prems(3) CallDispatch d by auto
    note dc = dispatch_cases[OF d ne]
    show ?thesis
    proof (cases r1)
      case (Returned u)
      then have p: "play env cs (Suc k0, s1) = Some (k, s)" using Cons.prems(3) CallDispatch d by simp
      have "unique s1 \<and> (0 < Suc k0) = (\<not> dispatching s1 \<and> dispatchCount s1 \<noteq> 0)"
        using dc Returned Cons.prems(1) by auto
      then show ?thesis using Cons.IH[OF _ _ p] by simp
    next
      case (Thrown e)
      then have p: "play env cs (k0, s1) = Some (k, s)" using Cons.prems(3) CallDispatch d by simp
      have "unique s1 \<and> (0 < k0) = (\<not> dispatching s1 \<and> dispatchCount s1 \<noteq> 0)"
        using dc Thrown Cons.prems(1,2) by (auto simp: isUniqueAndDone_def)
      then show ?thesis using Cons.IH[OF _ _ p] by simp
    next
      case OutOfFuel
      then show ?thesis using ne by simp
    qed
  qed
qed

text \<open>
  A call is rejected by the uniqueness check when it fails with that error and has
  written nothing: a call that gets past the checks has incremented \<^verbatim>\<open>#dispatchCount\<close>.
\<close>

lemma rejected_by_uniqueness_check:
  "(dispatch env n v s = (Thrown EventAlreadyEmitted, s)) = (\<not> dispatching s \<and> isUniqueAndDone s)"
proof (cases "dispatching s \<or> isUniqueAndDone s")
  case True
  then show ?thesis by (cases n) auto
next
  case False
  obtain r s' where d: "dispatch env n v s = (r, s')" by (cases "dispatch env n v s")
  have "r = OutOfFuel \<or> dispatchCount s' = dispatchCount s + 1"
    using dispatch_cases[OF d] False by auto
  then have "(r, s') \<noteq> (Thrown EventAlreadyEmitted, s)" by auto
  then show ?thesis using False d by simp
qed

text \<open>
  Claim C4, as stated: on a unique emitter a dispatch call fails with
  \<^verbatim>\<open>AlreadyEmittedError\<close> exactly when a prior dispatch succeeded. With
  \<^verbatim>\<open>listenAfterUniqueDispatched = 'error'\<close> the first dispatch can fail with it: once
  \<^verbatim>\<open>#dispatchCount\<close> is incremented \<^verbatim>\<open>listen\<close> throws that error, and listener 0,
  which registers listener 1, lets it escape through \<^verbatim>\<open>#dispatch\<close>.
\<close>

theorem first_dispatch_fails_with_already_emitted:
  "play demo [CallListen 0] (0, new_emitter 10 True Error)
     = Some (0, registered True Error [0])
   \<and> fst (dispatch demo 2 5 (registered True Error [0]))
       = Thrown EventAlreadyEmitted"
  by code_simp

text \<open>
  Claim C4, amended: on a unique emitter the uniqueness check of \<^verbatim>\<open>#dispatch\<close> rejects
  a call (the call fails with \<^verbatim>\<open>AlreadyEmittedError\<close> and the emitter is as before)
  exactly when a prior dispatch call has succeeded. Here \<open>k\<close> is the number of dispatch
  calls that returned normally in the history \<open>cs\<close> of a fresh unique emitter.
\<close>

theorem uniqueness_check_exactly_after_success:
  assumes "play env cs (0, new_emitter m True a) = Some (k, s)"
  shows "(dispatch env n v s = (Thrown EventAlreadyEmitted, s)) = (0 < k)"
proof -
  have "unique s \<and> (0 < k) = (\<not> dispatching s \<and> dispatchCount s \<noteq> 0)"
    by (rule play_unique_inv[OF _ _ assms]) (simp_all add: new_emitter_def)
  then show ?thesis
    by (simp add: rejected_by_uniqueness_check isUniqueAndDone_def)
qed

text \<open>
  After one listener and one successful dispatch the next call is rejected; before any
  dispatch it is not.
\<close>

theorem uniqueness_check_exactly_after_success_witness:
  "play demo [CallListen 1, CallDispatch 2 5] (0, new_emitter 10 True Default)
     = Some (1, snd (dispatch demo 2 5 (registered True Default [1])))
   \<and> (dispatch demo 2 6 (snd (dispatch demo 2 5 (registered True Default [1])))
        = (Thrown EventAlreadyEmitted,
           snd (dispatch demo 2 5 (registered True Default [1]))))
   \<and> play demo [CallListen 1] (0, new_emitter 10 True Default)
       = Some (0, registered True Default [1])
   \<and> dispatch demo 2 6 (registered True Default [1])
       \<noteq> (Thrown EventAlreadyEmitted, registered True Default [1])"
  using
    uniqueness_check_exactly_after_success [of demo "[CallListen 1, CallDispatch 2 5]" 10 Default 1
      "snd (dispatch demo 2 5 (registered True Default [1]))" 2 6]
    uniqueness_check_exactly_after_success [of demo "[CallListen 1]" 10 Default 0
      "registered True Default [1]" 2 6]
  by code_simp

section \<open>Listeners registered during a cycle\<close>














section \<open>Dispatch from inside a listener\<close>






section \<open>Unregistering\<close>






























section \<open>The completion of an asynchronous dispatch\<close>














section \<open>A listener that throws into an asynchronous dispatch\<close>






section \<open>The two regimes of the generator\<close>













text \<open>
  Claim C8. In the drop-to-latest regime (\<open>bufferSize = 0\<close> or \<open>windowTime = 0\<close>) a
  dispatched value is kept only when a pull is suspended: the queue then becomes the
  new value alone, with an infinite expiration date, and the pending read is resolved
  once and forgotten, so that a further value is dropped and wakes nothing; a value
  dispatched while no pull is pending leaves the generator as it was.
\<close>

theorem drop_to_latest_regime:
  assumes "bufferSize b = 0 \<or> windowTime b = 0"
  shows "(pendingRead b = Some p \<longrightarrow>
            on_value now v b = b\<lparr>vals := [(v, \<infinity>)], resolved := resolved b @ [p], pendingRead := None\<rparr>
            \<and> on_value now' v' (on_value now v b) = on_value now v b)
       \<and> (pendingRead b = None \<longrightarrow> on_value now v b = b)"
  using assms by (auto simp: on_value_def)

text \<open>
  With \<open>bufferSize = 0\<close>: a value dispatched before any pull is dropped; a pull suspends;
  of the values a and b dispatched then, a is kept and wakes the pull, b is dropped.
\<close>

theorem drop_to_latest_regime_witness:
  "bufferSize latest = 0
   \<and> pendingRead latest = None
   \<and> on_value 99 ''z'' latest = latest
   \<and> pendingRead (snd (pull None 100 latest)) = Some 0
   \<and> vals (on_value 101 ''a'' (snd (pull None 100 latest)))
       = [(''a'', \<infinity>)]
   \<and> resolved (on_value 101 ''a'' (snd (pull None 100 latest))) = [0]
   \<and> on_value 102 ''b'' (on_value 101 ''a'' (snd (pull None 100 latest)))
       = on_value 101 ''a'' (snd (pull None 100 latest))"
proof -
  let ?g = "latest"
  let ?b = "snd (pull None 100 ?g)"
  have g0: "bufferSize ?g = 0" and gn: "pendingRead ?g = None"
    by (simp_all add: latest_def toAsyncGenerator_def at_least_zero_def zero_enat_def)
  have b0: "bufferSize ?b = 0" and bp: "pendingRead ?b = Some 0" and br: "resolved ?b = []"
    by (simp_all add: latest_def pull_def toAsyncGenerator_def at_least_zero_def zero_enat_def)
  have dropped: "on_value 99 ''z'' ?g = ?g"
    using drop_to_latest_regime [of ?g 0 99 "''z''" 0 "''z''"] g0 gn by simp
  note woken = drop_to_latest_regime [of ?b 0 101 "''a''" 102 "''b''", OF disjI1 [OF b0],
      THEN conjunct1, rule_format, OF bp]
  have kept: "vals (on_value 101 ''a'' ?b) = [(''a'', \<infinity>)]"
    using woken [THEN conjunct1] by simp
  have once: "resolved (on_value 101 ''a'' ?b) = [0]"
    using woken [THEN conjunct1] br by simp
  have next_dropped: "on_value 102 ''b'' (on_value 101 ''a'' ?b) = on_value 101 ''a'' ?b"
    by (rule woken [THEN conjunct2])
  show ?thesis
    by (intro conjI g0 gn dropped bp kept once next_dropped)
qed

end
